theory Spec2Isabelle
  imports Main "HOL-Library.Char_ord" "HOL-Library.List_Lexorder" "HOL-Library.Multiset"
begin

section \<open>Python strings\<close>

text \<open>
  A Python \<open>str\<close> is modelled as a list of 8-bit characters, each read as the code point
  of the same number (U+0000 to U+00FF). Code points above U+00FF are outside the model.
  On this range \<open>str.isspace\<close>, \<open>str.lower\<close> and the regex class \<open>\d\<close> are as
  defined below; string comparison is lexicographic on code points.
\<close>

definition isspace :: "char \<Rightarrow> bool" where
  "isspace c \<longleftrightarrow>
     c \<in> set [CHR 0x09, CHR 0x0A, CHR 0x0B, CHR 0x0C, CHR 0x0D,
              CHR 0x1C, CHR 0x1D, CHR 0x1E, CHR 0x1F, CHR 0x20, CHR 0x85, CHR 0xA0]"

text \<open>\<open>s.strip()\<close>: leading and trailing whitespace removed.\<close>

definition str_strip :: "string \<Rightarrow> string" where
  "str_strip s = rev (dropWhile isspace (rev (dropWhile isspace s)))"

definition lower_char :: "char \<Rightarrow> char" where
  "lower_char c =
     (if (CHR ''A'' \<le> c \<and> c \<le> CHR ''Z'') \<or> (CHR 0xC0 \<le> c \<and> c \<le> CHR 0xDE \<and> c \<noteq> CHR 0xD7)
      then char_of (of_char c + (32::nat)) else c)"

text \<open>\<open>s.lower()\<close>.\<close>

definition str_lower :: "string \<Rightarrow> string" where
  "str_lower s = map lower_char s"

text \<open>\<open>s.replace(old, new)\<close> for one-character \<open>old\<close> and \<open>new\<close>.\<close>

definition str_replace :: "char \<Rightarrow> char \<Rightarrow> string \<Rightarrow> string" where
  "str_replace old new s = map (\<lambda>c. if c = old then new else c) s"

text \<open>\<open>s.split(sep)\<close> for a one-character separator: never an empty list.\<close>

fun str_split :: "char \<Rightarrow> string \<Rightarrow> string list" where
  "str_split sep [] = [[]]"
| "str_split sep (c # cs) =
     (if c = sep then [] # str_split sep cs
      else (case str_split sep cs of
              [] \<Rightarrow> [[c]]
            | g # gs \<Rightarrow> (c # g) # gs))"

definition is_digit :: "char \<Rightarrow> bool" where
  "is_digit c \<longleftrightarrow> CHR ''0'' \<le> c \<and> c \<le> CHR ''9''"

definition digit_val :: "char \<Rightarrow> int" where
  "digit_val c = int (of_char c) - 48"

text \<open>
  \<open>int(s)\<close> on a non-empty string of decimal digits. \<open>None\<close> stands for every other
  string: Python raises \<open>ValueError\<close> on most of them and accepts a sign, underscores and
  surrounding whitespace on the rest, none of which this program passes to \<open>int\<close>.
\<close>

definition py_int :: "string \<Rightarrow> int option" where
  "py_int s =
     (if s \<noteq> [] \<and> list_all is_digit s
      then Some (foldl (\<lambda>a c. 10 * a + digit_val c) 0 s) else None)"

text \<open>\<open>d.get(key, default)\<close>.\<close>

definition dict_get :: "('k \<rightharpoonup> 'v) \<Rightarrow> 'k \<Rightarrow> 'v \<Rightarrow> 'v" where
  "dict_get d key dflt = (case d key of Some v \<Rightarrow> v | None \<Rightarrow> dflt)"

section \<open>Regular expressions\<close>

text \<open>
  The patterns of the program use character classes, concatenation, alternation,
  \<open>*\<close> and bounded repetition. \<open>re_fullmatch\<close> decides membership in the language of a
  pattern by derivatives.
\<close>

datatype regex =
    Never
  | Empty
  | Cls "char \<Rightarrow> bool"
  | Alt regex regex
  | Seq regex regex
  | Rep regex

fun accepts_empty :: "regex \<Rightarrow> bool" where
  "accepts_empty Never = False"
| "accepts_empty Empty = True"
| "accepts_empty (Cls P) = False"
| "accepts_empty (Alt r s) = (accepts_empty r \<or> accepts_empty s)"
| "accepts_empty (Seq r s) = (accepts_empty r \<and> accepts_empty s)"
| "accepts_empty (Rep r) = True"

fun after :: "char \<Rightarrow> regex \<Rightarrow> regex" where
  "after c Never = Never"
| "after c Empty = Never"
| "after c (Cls P) = (if P c then Empty else Never)"
| "after c (Alt r s) = Alt (after c r) (after c s)"
| "after c (Seq r s) =
     (if accepts_empty r then Alt (Seq (after c r) s) (after c s) else Seq (after c r) s)"
| "after c (Rep r) = Seq (after c r) (Rep r)"

fun re_fullmatch :: "regex \<Rightarrow> string \<Rightarrow> bool" where
  "re_fullmatch r [] = accepts_empty r"
| "re_fullmatch r (c # cs) = re_fullmatch (after c r) cs"

text \<open>\<open>r{n}\<close>, \<open>r{0,n}\<close> and \<open>r{m,n}\<close>.\<close>

fun repeat_n :: "nat \<Rightarrow> regex \<Rightarrow> regex" where
  "repeat_n 0 r = Empty"
| "repeat_n (Suc n) r = Seq r (repeat_n n r)"

fun repeat_upto :: "nat \<Rightarrow> regex \<Rightarrow> regex" where
  "repeat_upto 0 r = Empty"
| "repeat_upto (Suc n) r = Alt Empty (Seq r (repeat_upto n r))"

definition repeat_between :: "nat \<Rightarrow> nat \<Rightarrow> regex \<Rightarrow> regex" where
  "repeat_between m n r = Seq (repeat_n m r) (repeat_upto (n - m) r)"

text \<open>
  \<open>re.match(p, s)\<close> for a pattern \<open>p\<close> of the form \<open>^r$\<close> (or \<open>^r1$|^r2$\<close>, which is
  \<open>^(r1|r2)$\<close>): without the MULTILINE flag \<open>$\<close> matches at the end of the string and
  just before a newline that ends the string.
\<close>

definition re_match :: "regex \<Rightarrow> string \<Rightarrow> bool" where
  "re_match r s \<longleftrightarrow>
     re_fullmatch r s \<or> (s \<noteq> [] \<and> last s = CHR 0x0A \<and> re_fullmatch r (butlast s))"

text \<open>Languages, used to reason about \<open>re_fullmatch\<close>.\<close>

definition conc :: "string set \<Rightarrow> string set \<Rightarrow> string set" where
  "conc A B = {u @ v | u v. u \<in> A \<and> v \<in> B}"

inductive_set star :: "string set \<Rightarrow> string set" for A :: "string set" where
  star_nil: "[] \<in> star A"
| star_app: "u \<in> A \<Longrightarrow> v \<in> star A \<Longrightarrow> u @ v \<in> star A"

fun lang :: "regex \<Rightarrow> string set" where
  "lang Never = {}"
| "lang Empty = {[]}"
| "lang (Cls P) = {[c] | c. P c}"
| "lang (Alt r s) = lang r \<union> lang s"
| "lang (Seq r s) = conc (lang r) (lang s)"
| "lang (Rep r) = star (lang r)"

section \<open>Exercise 2: validation functions\<close>

definition is_alnum :: "char \<Rightarrow> bool" where
  "is_alnum c \<longleftrightarrow>
     (CHR ''a'' \<le> c \<and> c \<le> CHR ''z'') \<or> (CHR ''A'' \<le> c \<and> c \<le> CHR ''Z'')
     \<or> (CHR ''0'' \<le> c \<and> c \<le> CHR ''9'')"

definition is_alnum_hyphen :: "char \<Rightarrow> bool" where
  "is_alnum_hyphen c \<longleftrightarrow> is_alnum c \<or> c = CHR ''-''"

text \<open>\<^verbatim>\<open>^[a-zA-Z0-9][a-zA-Z0-9\-]*[a-zA-Z0-9]$|^[a-zA-Z0-9]$\<close>\<close>

definition hostname_pattern :: regex where
  "hostname_pattern =
     Alt (Seq (Cls is_alnum) (Seq (Rep (Cls is_alnum_hyphen)) (Cls is_alnum)))
         (Cls is_alnum)"

definition is_valid_hostname :: "string \<Rightarrow> bool" where
  "is_valid_hostname hostname =
     (if hostname = [] \<or> str_strip hostname = [] then False
      else re_match hostname_pattern (str_strip hostname))"

text \<open>\<^verbatim>\<open>^(\d{1,3}\.){3}\d{1,3}$\<close>\<close>

definition ip_pattern :: regex where
  "ip_pattern =
     Seq (repeat_n 3 (Seq (repeat_between 1 3 (Cls is_digit)) (Cls (\<lambda>c. c = CHR ''.''))))
         (repeat_between 1 3 (Cls is_digit))"

text \<open>
  \<open>all(0 <= int(octet) <= 255 for octet in octets)\<close>: stops at the first octet out of
  range; \<open>None\<close> when \<open>int\<close> fails.
\<close>

fun all_octets :: "string list \<Rightarrow> bool option" where
  "all_octets [] = Some True"
| "all_octets (octet # octets) =
     (case py_int octet of
        None \<Rightarrow> None
      | Some n \<Rightarrow> if 0 \<le> n \<and> n \<le> 255 then all_octets octets else Some False)"

definition is_valid_ip :: "string \<Rightarrow> bool option" where
  "is_valid_ip ip_address =
     (if ip_address = [] \<or> str_strip ip_address = [] then Some False
      else if \<not> re_match ip_pattern (str_strip ip_address) then Some False
      else all_octets (str_split (CHR ''.'') (str_strip ip_address)))"

section \<open>Exercise 2: normalizers\<close>

definition type_mapping :: "(string \<times> string) list" where
  "type_mapping =
     [(''sw'', ''switch''), (''switch'', ''switch''),
      (''rtr'', ''router''), (''router'', ''router''),
      (''fw'', ''firewall''), (''firewall'', ''firewall'')]"

definition normalize_device_type :: "string \<Rightarrow> string" where
  "normalize_device_type device_type =
     (let normalized = str_strip (str_lower device_type)
      in dict_get (map_of type_mapping) normalized normalized)"

definition location_mapping :: "(string \<times> string) list" where
  "location_mapping =
     [(''bldg a'', ''building-a''), (''building a'', ''building-a''),
      (''bldg b'', ''building-b''), (''building b'', ''building-b''),
      (''bldg c'', ''building-c''), (''building c'', ''building-c''),
      (''dc'', ''data-center''), (''data center'', ''data-center''),
      (''datacenter'', ''data-center'')]"

definition normalize_location :: "string \<Rightarrow> string" where
  "normalize_location location =
     (let normalized = str_strip (str_lower location)
      in dict_get (map_of location_mapping) normalized
           (str_replace (CHR '' '') (CHR ''-'') normalized))"

section \<open>Exercise 2: row validation\<close>

text \<open>
  A row is a mapping from column names to string values. \<open>cleaned_data\<close> is the
  dictionary literal of the source, as its list of items.
\<close>

type_synonym row = "string \<rightharpoonup> string"

record ValidationResult =
  row_number :: int
  is_valid :: bool
  errors :: "string list"
  cleaned_data :: "(string \<times> string) list option"

text \<open>The value in single quotes, as the f-strings of the error messages write it.\<close>

definition quoted :: "string \<Rightarrow> string" where
  "quoted s = [CHR 0x27] @ s @ [CHR 0x27]"

text \<open>
  The result is \<open>None\<close> when \<open>is_valid_ip\<close> fails with an exception, which then leaves
  \<open>validate_row\<close>.
\<close>

definition validate_row :: "int \<Rightarrow> row \<Rightarrow> ValidationResult option" where
  "validate_row row_num row =
     (let hostname = str_strip (dict_get row ''hostname'' (dict_get row ''name'' ''''));
          ip = str_strip (dict_get row ''ip'' (dict_get row ''ip_address'' ''''));
          device_type = str_strip (dict_get row ''type'' (dict_get row ''device_type'' ''''));
          location = str_strip (dict_get row ''loc'' (dict_get row ''location'' ''''));
          errors1 =
            (if hostname = [] then [''Missing hostname'']
             else if \<not> is_valid_hostname hostname
             then [''Invalid hostname format: '' @ quoted hostname]
             else [])
      in case (if ip = [] then Some (errors1 @ [''Missing IP address''])
               else (case is_valid_ip ip of
                       None \<Rightarrow> None
                     | Some ok \<Rightarrow>
                         Some (if \<not> ok then errors1 @ [''Invalid IP address: '' @ quoted ip]
                               else errors1))) of
           None \<Rightarrow> None
         | Some errors2 \<Rightarrow>
             (let errors3 =
                    (if device_type = [] then errors2 @ [''Missing device type''] else errors2);
                  errors4 =
                    (if location = [] then errors3 @ [''Missing location''] else errors3);
                  cleaned =
                    (if errors4 = []
                     then Some [(''hostname'', str_replace (CHR ''_'') (CHR ''-'') (str_lower hostname)),
                                (''ip_address'', ip),
                                (''device_type'', normalize_device_type device_type),
                                (''location'', normalize_location location)]
                     else None)
              in Some \<lparr>row_number = row_num, is_valid = (length errors4 = 0),
                        errors = errors4, cleaned_data = cleaned\<rparr>))"

section \<open>Exercise 3: devices and normalizers\<close>

record Device =
  hostname :: string
  ip_address :: string
  device_type :: string
  location :: string
  status :: string

definition to_dict :: "Device \<Rightarrow> (string \<times> string) list" where
  "to_dict self =
     [(''hostname'', hostname self), (''ip_address'', ip_address self),
      (''device_type'', device_type self), (''location'', location self),
      (''status'', status self)]"

definition normalize_hostname :: "string \<Rightarrow> string" where
  "normalize_hostname h =
     str_replace (CHR '' '') (CHR ''-'') (str_replace (CHR ''_'') (CHR ''-'') (str_strip (str_lower h)))"

definition normalize_device_type_ex3 :: "string \<Rightarrow> string" where
  "normalize_device_type_ex3 dtype =
     dict_get (map_of type_mapping) (str_strip (str_lower dtype)) (str_strip (str_lower dtype))"

definition normalize_location_ex3 :: "string \<Rightarrow> string" where
  "normalize_location_ex3 loc =
     (let normalized = str_strip (str_lower loc)
      in dict_get (map_of location_mapping) normalized
           (str_replace (CHR '' '') (CHR ''-'') normalized))"

section \<open>Exercise 3: transformation\<close>

definition is_valid_row :: "row \<Rightarrow> bool" where
  "is_valid_row row =
     (let h = str_strip (dict_get row ''hostname'' (dict_get row ''name'' ''''));
          ip = str_strip (dict_get row ''ip'' (dict_get row ''ip_address'' ''''))
      in h \<noteq> [] \<and> ip \<noteq> [])"

definition transform_row :: "row \<Rightarrow> Device option" where
  "transform_row row =
     (if \<not> is_valid_row row then None
      else
        (let h = str_strip (dict_get row ''hostname'' (dict_get row ''name'' ''''));
             ip = str_strip (dict_get row ''ip'' (dict_get row ''ip_address'' ''''));
             dtype = str_strip (dict_get row ''type'' (dict_get row ''device_type'' ''''));
             loc = str_strip (dict_get row ''loc'' (dict_get row ''location'' ''''))
         in Some \<lparr>hostname = normalize_hostname h, ip_address = ip,
                   device_type = normalize_device_type_ex3 dtype,
                   location = normalize_location_ex3 loc, status = ''active''\<rparr>))"

section \<open>Exercise 3: the transformation pipeline\<close>

text \<open>
  \<open>task_3_transform_pipeline\<close> with the file contents made explicit: its input is the list
  of rows that \<open>csv.DictReader\<close> yields, its result the rows handed to
  \<open>csv.DictWriter\<close> and the four counts it prints.
\<close>

text \<open>The reading loop: \<open>devices\<close> and \<open>skipped\<close>.\<close>

fun read_and_transform :: "row list \<Rightarrow> Device list \<Rightarrow> nat \<Rightarrow> Device list \<times> nat" where
  "read_and_transform [] devices skipped = (devices, skipped)"
| "read_and_transform (row # rows) devices skipped =
     (case transform_row row of
        Some device \<Rightarrow> read_and_transform rows (devices @ [device]) skipped
      | None \<Rightarrow> read_and_transform rows devices (skipped + 1))"

text \<open>The deduplication loop: \<open>seen\<close>, \<open>unique_devices\<close> and \<open>duplicates\<close>.\<close>

fun remove_duplicates ::
  "Device list \<Rightarrow> string set \<Rightarrow> Device list \<Rightarrow> nat \<Rightarrow> Device list \<times> nat" where
  "remove_duplicates [] seen unique_devices duplicates = (unique_devices, duplicates)"
| "remove_duplicates (device # devices) seen unique_devices duplicates =
     (if hostname device \<notin> seen
      then remove_duplicates devices (insert (hostname device) seen)
             (unique_devices @ [device]) duplicates
      else remove_duplicates devices seen unique_devices (duplicates + 1))"

text \<open>\<open>unique_devices.sort(key=lambda d: d.hostname)\<close>: a stable sort.\<close>

definition sort_by_hostname :: "Device list \<Rightarrow> Device list" where
  "sort_by_hostname ds = sort_key hostname ds"

definition fieldnames :: "string list" where
  "fieldnames = [''hostname'', ''ip_address'', ''device_type'', ''location'', ''status'']"

text \<open>\<open>writer.writerow(d)\<close>: the values of \<open>d\<close> in the order of \<open>fieldnames\<close>.\<close>

definition writerow :: "(string \<times> string) list \<Rightarrow> string list" where
  "writerow d = map (\<lambda>f. dict_get (map_of d) f '''') fieldnames"

record PipelineResult =
  written :: "string list list"
  valid_devices :: nat
  skipped_invalid :: nat
  duplicates_removed :: nat
  final_count :: nat

text \<open>
  Lines 220 to 233 of \<open>task_3_transform_pipeline\<close>: the deduplication loop from an empty
  \<open>seen\<close>, an empty \<open>unique_devices\<close> and a zero count, then the sort.
\<close>

definition dedup_and_sort :: "Device list \<Rightarrow> Device list \<times> nat" where
  "dedup_and_sort devices =
     (case remove_duplicates devices {} [] 0 of
        (unique_devices, duplicates) \<Rightarrow> (sort_by_hostname unique_devices, duplicates))"

definition task_3_transform_pipeline :: "row list \<Rightarrow> PipelineResult" where
  "task_3_transform_pipeline rows =
     (case read_and_transform rows [] 0 of
        (devices, skipped) \<Rightarrow>
          (case dedup_and_sort devices of
             (unique_devices, duplicates) \<Rightarrow>
               \<lparr>written = map (\<lambda>device. writerow (to_dict device)) unique_devices,
                valid_devices = length devices,
                skipped_invalid = skipped,
                duplicates_removed = duplicates,
                final_count = length unique_devices\<rparr>))"

section \<open>Vocabulary of the specification\<close>

text \<open>A group of 1 to 3 digits.\<close>

definition octet_group :: "string \<Rightarrow> bool" where
  "octet_group g \<longleftrightarrow> 1 \<le> length g \<and> length g \<le> 3 \<and> (\<forall>c\<in>set g. is_digit c)"

text \<open>A group that parses as an integer in \<open>[0,255]\<close>.\<close>

definition in_range :: "string \<Rightarrow> bool" where
  "in_range g \<longleftrightarrow> (\<exists>n. py_int g = Some n \<and> 0 \<le> n \<and> n \<le> 255)"

text \<open>
  The Devices of a list that are the first with their hostname, in the order of the list,
  and the number of positions that repeat the hostname of an earlier position.
\<close>

definition first_occurrences :: "Device list \<Rightarrow> Device list" where
  "first_occurrences devices =
     map (\<lambda>i. devices ! i)
       (filter (\<lambda>i. \<forall>j<i. hostname (devices ! j) \<noteq> hostname (devices ! i))
          [0..<length devices])"

definition repeated_count :: "Device list \<Rightarrow> nat" where
  "repeated_count devices =
     length (filter (\<lambda>i. \<exists>j<i. hostname (devices ! j) = hostname (devices ! i))
       [0..<length devices])"

text \<open>One written row: the five fields in the fixed column order.\<close>

definition csv_row :: "Device \<Rightarrow> string list" where
  "csv_row d = [hostname d, ip_address d, device_type d, location d, status d]"

text \<open>
  The deduplication loop as a function of the devices still to read and the hostnames
  seen so far; used in the proofs about \<open>remove_duplicates\<close>.
\<close>

fun unseen_firsts :: "string set \<Rightarrow> Device list \<Rightarrow> Device list" where
  "unseen_firsts seen [] = []"
| "unseen_firsts seen (d # ds) =
     (if hostname d \<in> seen then unseen_firsts seen ds
      else d # unseen_firsts (insert (hostname d) seen) ds)"

section \<open>The matcher decides the language of a pattern\<close>

lemma conc_Nil_iff: "[] \<in> conc A B \<longleftrightarrow> [] \<in> A \<and> [] \<in> B"
  by (auto simp: conc_def)

lemma conc_Cons_iff:
  "c # w \<in> conc A B \<longleftrightarrow>
     ([] \<in> A \<and> c # w \<in> B) \<or> (\<exists>u v. w = u @ v \<and> c # u \<in> A \<and> v \<in> B)"
proof
  assume "c # w \<in> conc A B"
  then obtain x y where xy: "c # w = x @ y" "x \<in> A" "y \<in> B"
    by (auto simp: conc_def)
  show "([] \<in> A \<and> c # w \<in> B) \<or> (\<exists>u v. w = u @ v \<and> c # u \<in> A \<and> v \<in> B)"
  proof (cases x)
    case Nil
    with xy show ?thesis by simp
  next
    case (Cons a x')
    with xy have "w = x' @ y" "c # x' \<in> A" by simp_all
    with xy show ?thesis by blast
  qed
next
  assume "([] \<in> A \<and> c # w \<in> B) \<or> (\<exists>u v. w = u @ v \<and> c # u \<in> A \<and> v \<in> B)"
  then show "c # w \<in> conc A B"
  proof
    assume "[] \<in> A \<and> c # w \<in> B"
    then have "[] @ (c # w) \<in> conc A B" unfolding conc_def by blast
    then show ?thesis by simp
  next
    assume "\<exists>u v. w = u @ v \<and> c # u \<in> A \<and> v \<in> B"
    then obtain u v where "w = u @ v" "c # u \<in> A" "v \<in> B" by blast
    then have "(c # u) @ v \<in> conc A B" unfolding conc_def by blast
    with \<open>w = u @ v\<close> show ?thesis by simp
  qed
qed

lemma star_Cons_split:
  "x \<in> star A \<Longrightarrow> x = c # w \<Longrightarrow> \<exists>u v. w = u @ v \<and> c # u \<in> A \<and> v \<in> star A"
proof (induction arbitrary: w rule: star.induct)
  case star_nil
  then show ?case by simp
next
  case (star_app u v)
  show ?case
  proof (cases u)
    case Nil
    with star_app show ?thesis by simp
  next
    case (Cons a u')
    with star_app.prems have "w = u' @ v" "a = c" by simp_all
    with Cons star_app.hyps show ?thesis by blast
  qed
qed

lemma star_Cons_iff:
  "c # w \<in> star A \<longleftrightarrow> (\<exists>u v. w = u @ v \<and> c # u \<in> A \<and> v \<in> star A)"
proof
  assume "c # w \<in> star A"
  then show "\<exists>u v. w = u @ v \<and> c # u \<in> A \<and> v \<in> star A"
    by (rule star_Cons_split) simp
next
  assume "\<exists>u v. w = u @ v \<and> c # u \<in> A \<and> v \<in> star A"
  then obtain u v where "w = u @ v" "c # u \<in> A" "v \<in> star A" by blast
  then have "(c # u) @ v \<in> star A" by (blast intro: star.star_app)
  with \<open>w = u @ v\<close> show "c # w \<in> star A" by simp
qed

lemma accepts_empty_iff: "accepts_empty r \<longleftrightarrow> [] \<in> lang r"
  by (induction r) (auto simp: conc_Nil_iff intro: star.star_nil)

lemma lang_after: "w \<in> lang (after c r) \<longleftrightarrow> c # w \<in> lang r"
proof (induction r arbitrary: w)
  case (Seq r1 r2)
  have left: "w \<in> conc (lang (after c r1)) (lang r2) \<longleftrightarrow>
      (\<exists>u v. w = u @ v \<and> c # u \<in> lang r1 \<and> v \<in> lang r2)"
    unfolding conc_def using Seq.IH(1) by blast
  show ?case
    by (simp add: left Seq.IH(2) conc_Cons_iff accepts_empty_iff) blast
next
  case (Rep r)
  have "w \<in> conc (lang (after c r)) (star (lang r)) \<longleftrightarrow>
      (\<exists>u v. w = u @ v \<and> c # u \<in> lang r \<and> v \<in> star (lang r))"
    unfolding conc_def using Rep.IH by blast
  then show ?case
    by (simp add: star_Cons_iff)
qed auto

lemma re_fullmatch_iff: "re_fullmatch r s \<longleftrightarrow> s \<in> lang r"
  by (induction s arbitrary: r) (simp_all add: accepts_empty_iff lang_after)

section \<open>Validators and normalizers\<close>

subsection \<open>strip\<close>

lemma rstrip_prefix: "t = rev (dropWhile P (rev t)) @ rev (takeWhile P (rev t))"
proof -
  have "rev (dropWhile P (rev t)) @ rev (takeWhile P (rev t)) =
      rev (takeWhile P (rev t) @ dropWhile P (rev t))"
    by (simp only: rev_append)
  also have "\<dots> = t" by simp
  finally show ?thesis by (rule sym)
qed

lemma str_strip_Nil [simp]: "str_strip [] = []"
  by (simp add: str_strip_def)

lemma str_strip_last: "str_strip s \<noteq> [] \<Longrightarrow> \<not> isspace (last (str_strip s))"
proof -
  assume ne: "str_strip s \<noteq> []"
  let ?d = "dropWhile isspace (rev (dropWhile isspace s))"
  from ne have "?d \<noteq> []" by (simp add: str_strip_def)
  then have "\<not> isspace (hd ?d)" by (rule hd_dropWhile)
  moreover have "last (str_strip s) = hd ?d"
    using \<open>?d \<noteq> []\<close> by (simp add: str_strip_def last_rev)
  ultimately show ?thesis by simp
qed

lemma str_strip_hd: "str_strip s \<noteq> [] \<Longrightarrow> \<not> isspace (hd (str_strip s))"
proof -
  assume ne: "str_strip s \<noteq> []"
  let ?t = "dropWhile isspace s"
  have pre: "?t = str_strip s @ rev (takeWhile isspace (rev ?t))"
    unfolding str_strip_def by (rule rstrip_prefix)
  with ne have tne: "?t \<noteq> []" by (metis Nil_is_append_conv)
  then have "\<not> isspace (hd ?t)" by (rule hd_dropWhile)
  moreover from pre ne have "hd ?t = hd (str_strip s)"
    by (metis hd_append2)
  ultimately show ?thesis by simp
qed

lemma str_strip_id:
  assumes "s \<noteq> []" "\<not> isspace (hd s)" "\<not> isspace (last s)"
  shows "str_strip s = s"
proof -
  from assms have a: "dropWhile isspace s = s" by (cases s) simp_all
  from assms have "rev s \<noteq> []" "\<not> isspace (hd (rev s))" by (simp_all add: hd_rev)
  then have "dropWhile isspace (rev s) = rev s" by (cases "rev s") simp_all
  with a show ?thesis by (simp add: str_strip_def)
qed

lemma str_strip_idem [simp]: "str_strip (str_strip s) = str_strip s"
proof (cases "str_strip s = []")
  case True
  then show ?thesis by simp
next
  case False
  then show ?thesis by (intro str_strip_id str_strip_hd str_strip_last)
qed

lemma str_strip_no_space: "\<forall>c\<in>set s. \<not> isspace c \<Longrightarrow> str_strip s = s"
proof (cases s)
  case Nil
  then show ?thesis by simp
next
  case (Cons a as)
  assume "\<forall>c\<in>set s. \<not> isspace c"
  with Cons show ?thesis by (intro str_strip_id) (simp_all)
qed

lemma str_strip_keeps_hd:
  assumes "s \<noteq> []" "\<not> isspace (hd s)"
  shows "str_strip s \<noteq> [] \<and> hd (str_strip s) = hd s"
proof -
  from assms have a: "dropWhile isspace s = s" by (cases s) simp_all
  have pre: "s = str_strip s @ rev (takeWhile isspace (rev s))"
    using rstrip_prefix [of s isspace] by (simp add: str_strip_def a)
  have "hd s \<in> set (dropWhile isspace (rev s))"
  proof -
    have "hd s \<in> set (rev s)" using assms by simp
    moreover have "hd s \<notin> set (takeWhile isspace (rev s))"
      using assms(2) by (auto dest: set_takeWhileD)
    ultimately show ?thesis
      by (metis Un_iff set_append takeWhile_dropWhile_id)
  qed
  then have "dropWhile isspace (rev s) \<noteq> []" by (metis empty_iff empty_set)
  then have ne: "str_strip s \<noteq> []" by (simp add: str_strip_def a del: dropWhile_eq_Nil_conv)
  with pre show ?thesis by (metis hd_append2)
qed

lemma str_strip_keeps_last:
  assumes "s \<noteq> []" "\<not> isspace (last s)"
  shows "str_strip s \<noteq> [] \<and> last (str_strip s) = last s"
proof -
  let ?t = "dropWhile isspace s"
  have "last s \<in> set ?t"
  proof -
    have "last s \<in> set s" using assms by simp
    moreover have "last s \<notin> set (takeWhile isspace s)"
      using assms(2) by (auto dest: set_takeWhileD)
    ultimately show ?thesis
      by (metis Un_iff set_append takeWhile_dropWhile_id)
  qed
  then have tne: "?t \<noteq> []" by (metis empty_iff empty_set)
  have "s = takeWhile isspace s @ ?t" by simp
  with tne have lt: "last ?t = last s" by (metis last_appendR)
  from tne lt assms have "rev ?t \<noteq> []" "\<not> isspace (hd (rev ?t))" by (simp_all add: hd_rev)
  then have "dropWhile isspace (rev ?t) = rev ?t" by (cases "rev ?t") simp_all
  then have "str_strip s = ?t" by (simp add: str_strip_def)
  with tne lt show ?thesis by simp
qed

lemma isspace_newline: "isspace (CHR 0x0A)"
  by (simp add: isspace_def)

lemma re_match_stripped: "re_match r (str_strip s) \<longleftrightarrow> str_strip s \<in> lang r"
proof (cases "str_strip s = []")
  case True
  then show ?thesis by (simp add: re_match_def re_fullmatch_iff)
next
  case False
  then have "last (str_strip s) \<noteq> CHR 0x0A"
    using str_strip_last [of s] isspace_newline by auto
  then show ?thesis by (simp add: re_match_def re_fullmatch_iff)
qed

subsection \<open>hostname pattern\<close>

lemma conc_Cls_iff: "w \<in> conc {[c] |c. P c} B \<longleftrightarrow> (\<exists>c v. w = c # v \<and> P c \<and> v \<in> B)"
proof
  assume "w \<in> conc {[c] |c. P c} B"
  then show "\<exists>c v. w = c # v \<and> P c \<and> v \<in> B" by (auto simp: conc_def)
next
  assume "\<exists>c v. w = c # v \<and> P c \<and> v \<in> B"
  then obtain c v where cv: "w = c # v" "P c" "v \<in> B" by blast
  then have "[c] @ v \<in> conc {[c] |c. P c} B" unfolding conc_def by blast
  with cv show "w \<in> conc {[c] |c. P c} B" by simp
qed

lemma star_Cls_iff: "w \<in> star {[c] |c. P c} \<longleftrightarrow> (\<forall>c\<in>set w. P c)"
proof (induction w)
  case Nil
  show ?case by (simp add: star.star_nil)
next
  case (Cons a w)
  have "a # w \<in> star {[c] |c. P c} \<longleftrightarrow> P a \<and> w \<in> star {[c] |c. P c}"
    by (auto simp: star_Cons_iff)
  with Cons show ?case by simp
qed

lemma lang_hostname_pattern:
  "s \<in> lang hostname_pattern \<longleftrightarrow>
     (\<exists>c. s = [c] \<and> is_alnum c) \<or>
     (\<exists>a m b. s = a # m @ [b] \<and> is_alnum a \<and> is_alnum b \<and> (\<forall>c\<in>set m. is_alnum_hyphen c))"
proof -
  have mid: "v \<in> conc (star {[c] |c. is_alnum_hyphen c}) {[c] |c. is_alnum c} \<longleftrightarrow>
      (\<exists>m b. v = m @ [b] \<and> is_alnum b \<and> (\<forall>c\<in>set m. is_alnum_hyphen c))" for v
    by (auto simp: conc_def star_Cls_iff)
  show ?thesis
    by (auto simp: hostname_pattern_def conc_Cls_iff mid)
qed

lemma is_valid_hostname_iff:
  "is_valid_hostname s \<longleftrightarrow> str_strip s \<noteq> [] \<and> str_strip s \<in> lang hostname_pattern"
  by (auto simp: is_valid_hostname_def re_match_stripped)

lemma is_alnum_not_space: "is_alnum c \<Longrightarrow> \<not> isspace c"
  by (auto simp: is_alnum_def isspace_def)

lemma hyphen_not_space: "\<not> isspace (CHR ''-'')"
  by (simp add: isspace_def)

lemma not_alnum_hyphen: "\<not> is_alnum (CHR ''-'')"
  by (simp add: is_alnum_def)

lemma list_ends: "2 \<le> length s \<Longrightarrow> s = hd s # butlast (tl s) @ [last s]"
proof (cases s)
  case Nil
  assume "2 \<le> length s"
  with Nil show ?thesis by simp
next
  case (Cons a t)
  assume "2 \<le> length s"
  with Cons have "t \<noteq> []" by auto
  then have "t = butlast t @ [last t]" by simp
  with Cons \<open>t \<noteq> []\<close> show ?thesis by simp
qed

lemma valid_hostname_plain:
  assumes "s \<noteq> []" "\<forall>c\<in>set s. is_alnum c \<or> c = CHR ''-''"
    and "hd s \<noteq> CHR ''-''" "last s \<noteq> CHR ''-''"
  shows "is_valid_hostname s"
proof -
  from assms(2) have "\<forall>c\<in>set s. \<not> isspace c"
    using is_alnum_not_space hyphen_not_space by blast
  then have st: "str_strip s = s" by (rule str_strip_no_space)
  from assms have ends: "is_alnum (hd s)" "is_alnum (last s)" by auto
  have "s \<in> lang hostname_pattern"
  proof (cases "length s = 1")
    case True
    then have "s = [hd s]" by (cases s) simp_all
    with ends show ?thesis unfolding lang_hostname_pattern by blast
  next
    case False
    with assms(1) have "2 \<le> length s" by (cases s) (auto simp: Suc_le_eq)
    then have dec: "s = hd s # butlast (tl s) @ [last s]" by (rule list_ends)
    have "set (butlast (tl s)) \<subseteq> set s"
      by (cases s) (auto dest: in_set_butlastD)
    with assms(2) have "\<forall>c\<in>set (butlast (tl s)). is_alnum_hyphen c"
      by (auto simp: is_alnum_hyphen_def)
    with dec ends show ?thesis unfolding lang_hostname_pattern by blast
  qed
  with st assms(1) show ?thesis by (simp add: is_valid_hostname_iff)
qed

lemma invalid_hostname_outside:
  assumes "c \<in> set (str_strip s)" "\<not> (is_alnum c \<or> c = CHR ''-'')"
  shows "\<not> is_valid_hostname s"
proof
  assume "is_valid_hostname s"
  then have "str_strip s \<in> lang hostname_pattern" by (simp add: is_valid_hostname_iff)
  then have "\<forall>c\<in>set (str_strip s). is_alnum_hyphen c"
    unfolding lang_hostname_pattern by (auto simp: is_alnum_hyphen_def)
  with assms show False by (auto simp: is_alnum_hyphen_def)
qed

lemma valid_hostname_ends:
  assumes "is_valid_hostname s"
  shows "is_alnum (hd (str_strip s)) \<and> is_alnum (last (str_strip s))"
proof -
  from assms have "str_strip s \<in> lang hostname_pattern" by (simp add: is_valid_hostname_iff)
  then show ?thesis unfolding lang_hostname_pattern by auto
qed

lemma invalid_hostname_hyphen_ends:
  assumes "s \<noteq> []" "hd s = CHR ''-'' \<or> last s = CHR ''-''"
  shows "\<not> is_valid_hostname s"
proof
  assume v: "is_valid_hostname s"
  from assms(2) show False
  proof
    assume h: "hd s = CHR ''-''"
    with assms(1) have "hd (str_strip s) = CHR ''-''"
      using str_strip_keeps_hd [of s] hyphen_not_space by simp
    with valid_hostname_ends [OF v] not_alnum_hyphen show False by simp
  next
    assume h: "last s = CHR ''-''"
    with assms(1) have "last (str_strip s) = CHR ''-''"
      using str_strip_keeps_last [of s] hyphen_not_space by simp
    with valid_hostname_ends [OF v] not_alnum_hyphen show False by simp
  qed
qed

lemma valid_hostname_single: "is_alnum c \<Longrightarrow> is_valid_hostname [c]"
  using not_alnum_hyphen by (intro valid_hostname_plain) auto

text \<open>
  C2 (as amended). \<open>is_valid_hostname s\<close> holds iff the trimmed \<open>s\<close> is non-empty and is
  either one alphanumeric character, or starts and ends with an alphanumeric character with
  only alphanumerics and hyphens between. Hence every non-empty string of alphanumerics and
  hyphens that neither starts nor ends with a hyphen is valid; a string whose trimmed form
  contains a character outside \<open>[A-Za-z0-9-]\<close>, or that starts or ends with a hyphen, is
  invalid; and a single alphanumeric character is valid.
\<close>

theorem is_valid_hostname_spec:
  "(is_valid_hostname s \<longleftrightarrow>
      str_strip s \<noteq> [] \<and>
      ((\<exists>c. str_strip s = [c] \<and> is_alnum c) \<or>
       (\<exists>a m b. str_strip s = a # m @ [b] \<and> is_alnum a \<and> is_alnum b \<and>
          (\<forall>c\<in>set m. is_alnum c \<or> c = CHR ''-''))))
   \<and> (s \<noteq> [] \<and> (\<forall>c\<in>set s. is_alnum c \<or> c = CHR ''-'') \<and>
        hd s \<noteq> CHR ''-'' \<and> last s \<noteq> CHR ''-'' \<longrightarrow> is_valid_hostname s)
   \<and> ((\<exists>c\<in>set (str_strip s). \<not> (is_alnum c \<or> c = CHR ''-'')) \<or>
        (s \<noteq> [] \<and> (hd s = CHR ''-'' \<or> last s = CHR ''-'')) \<longrightarrow> \<not> is_valid_hostname s)
   \<and> (is_alnum d \<longrightarrow> is_valid_hostname [d])"
proof (intro conjI impI)
  show "is_valid_hostname s \<longleftrightarrow>
      str_strip s \<noteq> [] \<and>
      ((\<exists>c. str_strip s = [c] \<and> is_alnum c) \<or>
       (\<exists>a m b. str_strip s = a # m @ [b] \<and> is_alnum a \<and> is_alnum b \<and>
          (\<forall>c\<in>set m. is_alnum c \<or> c = CHR ''-'')))"
    by (simp only: is_valid_hostname_iff lang_hostname_pattern is_alnum_hyphen_def)
next
  assume "s \<noteq> [] \<and> (\<forall>c\<in>set s. is_alnum c \<or> c = CHR ''-'') \<and>
        hd s \<noteq> CHR ''-'' \<and> last s \<noteq> CHR ''-''"
  then show "is_valid_hostname s" by (intro valid_hostname_plain) simp_all
next
  assume "(\<exists>c\<in>set (str_strip s). \<not> (is_alnum c \<or> c = CHR ''-'')) \<or>
        (s \<noteq> [] \<and> (hd s = CHR ''-'' \<or> last s = CHR ''-''))"
  then show "\<not> is_valid_hostname s"
    using invalid_hostname_outside invalid_hostname_hyphen_ends by blast
next
  assume "is_alnum d"
  then show "is_valid_hostname [d]" by (rule valid_hostname_single)
qed

theorem is_valid_hostname_spec_witness:
  "is_valid_hostname ''switch-01'' \<and> is_valid_hostname ''a'' \<and>
   \<not> is_valid_hostname ''sw_01'' \<and> \<not> is_valid_hostname ''-switch''"
  using is_valid_hostname_spec [of "''switch-01''" "CHR ''a''"]
    is_valid_hostname_spec [of "''sw_01''" "CHR ''a''"]
    is_valid_hostname_spec [of "''-switch''" "CHR ''a''"]
  by (simp add: is_alnum_def str_strip_def isspace_def)

text \<open>
  C2 as stated fails on surrounding whitespace: \<open>" a "\<close> contains the space character,
  which is outside \<open>[A-Za-z0-9-]\<close>, and is valid, because the validator trims first.
\<close>

theorem is_valid_hostname_padded_counterexample:
  "CHR '' '' \<in> set '' a '' \<and> \<not> (is_alnum (CHR '' '') \<or> CHR '' '' = CHR ''-'') \<and>
   is_valid_hostname '' a ''"
  by (simp add: is_alnum_def is_valid_hostname_def str_strip_def isspace_def re_match_def
      hostname_pattern_def is_alnum_hyphen_def)

subsection \<open>IPv4 pattern\<close>

lemma lang_repeat_n_Cls:
  "w \<in> lang (repeat_n n (Cls P)) \<longleftrightarrow> length w = n \<and> (\<forall>c\<in>set w. P c)"
proof (induction n arbitrary: w)
  case 0
  show ?case by auto
next
  case (Suc n)
  show ?case by (cases w) (auto simp: conc_Cls_iff Suc)
qed

lemma lang_repeat_upto_Cls:
  "w \<in> lang (repeat_upto n (Cls P)) \<longleftrightarrow> length w \<le> n \<and> (\<forall>c\<in>set w. P c)"
proof (induction n arbitrary: w)
  case 0
  show ?case by auto
next
  case (Suc n)
  show ?case by (cases w) (auto simp: conc_Cls_iff Suc)
qed

lemma lang_repeat_between_Cls:
  assumes "m \<le> n"
  shows "w \<in> lang (repeat_between m n (Cls P)) \<longleftrightarrow>
     m \<le> length w \<and> length w \<le> n \<and> (\<forall>c\<in>set w. P c)"
proof
  assume "w \<in> lang (repeat_between m n (Cls P))"
  then obtain u v where "w = u @ v" "length u = m" "\<forall>c\<in>set u. P c"
      "length v \<le> n - m" "\<forall>c\<in>set v. P c"
    by (auto simp: repeat_between_def conc_def lang_repeat_n_Cls lang_repeat_upto_Cls)
  with assms show "m \<le> length w \<and> length w \<le> n \<and> (\<forall>c\<in>set w. P c)" by auto
next
  assume a: "m \<le> length w \<and> length w \<le> n \<and> (\<forall>c\<in>set w. P c)"
  let ?u = "take m w" and ?v = "drop m w"
  have "?u \<in> lang (repeat_n m (Cls P))"
    using a by (auto simp: lang_repeat_n_Cls dest: in_set_takeD)
  moreover have "?v \<in> lang (repeat_upto (n - m) (Cls P))"
    using a by (auto simp: lang_repeat_upto_Cls dest: in_set_dropD)
  ultimately have "?u @ ?v \<in> conc (lang (repeat_n m (Cls P))) (lang (repeat_upto (n - m) (Cls P)))"
    unfolding conc_def by blast
  then show "w \<in> lang (repeat_between m n (Cls P))"
    by (simp add: repeat_between_def)
qed

lemma lang_group: "g \<in> lang (repeat_between 1 3 (Cls is_digit)) \<longleftrightarrow> octet_group g"
  by (simp add: lang_repeat_between_Cls octet_group_def)

lemma mem_conc: "w \<in> conc A B \<longleftrightarrow> (\<exists>u v. w = u @ v \<and> u \<in> A \<and> v \<in> B)"
  by (auto simp: conc_def)

lemma conc_dot: "x \<in> conc A {[c] |c. c = CHR ''.''} \<longleftrightarrow> (\<exists>g. x = g @ ''.'' \<and> g \<in> A)"
  by (auto simp: conc_def)

lemma lang_group_dot:
  "x \<in> lang (Seq (repeat_between 1 3 (Cls is_digit)) (Cls (\<lambda>c. c = CHR ''.''))) \<longleftrightarrow>
     (\<exists>g. x = g @ ''.'' \<and> octet_group g)"
  by (simp only: lang.simps conc_dot lang_group)

lemma repeat_3: "repeat_n 3 r = Seq r (Seq r (Seq r Empty))"
  by (simp add: numeral_3_eq_3)

lemma conc_four:
  "s \<in> conc (conc X (conc X (conc X {[]}))) G \<longleftrightarrow>
     (\<exists>x1 x2 x3 g4. s = x1 @ x2 @ x3 @ g4 \<and> x1 \<in> X \<and> x2 \<in> X \<and> x3 \<in> X \<and> g4 \<in> G)"
proof
  assume "s \<in> conc (conc X (conc X (conc X {[]}))) G"
  then obtain a g4 where 1: "s = a @ g4" "a \<in> conc X (conc X (conc X {[]}))" "g4 \<in> G"
    unfolding mem_conc by blast
  then obtain x1 b where 2: "a = x1 @ b" "x1 \<in> X" "b \<in> conc X (conc X {[]})"
    unfolding mem_conc by blast
  then obtain x2 c where 3: "b = x2 @ c" "x2 \<in> X" "c \<in> conc X {[]}"
    unfolding mem_conc by blast
  then obtain x3 where 4: "c = x3" "x3 \<in> X"
    unfolding mem_conc by auto
  from 1 2 3 4 have "s = x1 @ x2 @ x3 @ g4" by simp
  with 1 2 3 4 show "\<exists>x1 x2 x3 g4. s = x1 @ x2 @ x3 @ g4 \<and> x1 \<in> X \<and> x2 \<in> X \<and> x3 \<in> X \<and> g4 \<in> G"
    by blast
next
  assume "\<exists>x1 x2 x3 g4. s = x1 @ x2 @ x3 @ g4 \<and> x1 \<in> X \<and> x2 \<in> X \<and> x3 \<in> X \<and> g4 \<in> G"
  then obtain x1 x2 x3 g4 where
    s: "s = x1 @ x2 @ x3 @ g4" and m: "x1 \<in> X" "x2 \<in> X" "x3 \<in> X" "g4 \<in> G"
    by blast
  from m have "x3 @ [] \<in> conc X {[]}" unfolding mem_conc by blast
  with m have "x2 @ x3 @ [] \<in> conc X (conc X {[]})" unfolding mem_conc by blast
  with m have "x1 @ x2 @ x3 @ [] \<in> conc X (conc X (conc X {[]}))" unfolding mem_conc by blast
  with m have "(x1 @ x2 @ x3 @ []) @ g4 \<in> conc (conc X (conc X (conc X {[]}))) G"
    unfolding mem_conc by blast
  with s show "s \<in> conc (conc X (conc X (conc X {[]}))) G" by simp
qed

lemma lang_ip_pattern:
  "s \<in> lang ip_pattern \<longleftrightarrow>
     (\<exists>g1 g2 g3 g4. s = g1 @ ''.'' @ g2 @ ''.'' @ g3 @ ''.'' @ g4 \<and>
        octet_group g1 \<and> octet_group g2 \<and> octet_group g3 \<and> octet_group g4)"
proof -
  let ?X = "lang (Seq (repeat_between 1 3 (Cls is_digit)) (Cls (\<lambda>c. c = CHR ''.'')))"
  let ?G = "lang (repeat_between 1 3 (Cls is_digit))"
  have eq: "lang ip_pattern = conc (conc ?X (conc ?X (conc ?X {[]}))) ?G"
    by (simp only: ip_pattern_def repeat_3 lang.simps)
  show ?thesis
  proof
    assume "s \<in> lang ip_pattern"
    then obtain x1 x2 x3 g4 where
      s: "s = x1 @ x2 @ x3 @ g4" and m: "x1 \<in> ?X" "x2 \<in> ?X" "x3 \<in> ?X" "g4 \<in> ?G"
      unfolding eq conc_four by blast
    from m obtain g1 g2 g3 where
      g: "x1 = g1 @ ''.''" "x2 = g2 @ ''.''" "x3 = g3 @ ''.''"
        "octet_group g1" "octet_group g2" "octet_group g3" "octet_group g4"
      unfolding lang_group_dot lang_group by blast
    with s have "s = g1 @ ''.'' @ g2 @ ''.'' @ g3 @ ''.'' @ g4" by simp
    with g show "\<exists>g1 g2 g3 g4. s = g1 @ ''.'' @ g2 @ ''.'' @ g3 @ ''.'' @ g4 \<and>
        octet_group g1 \<and> octet_group g2 \<and> octet_group g3 \<and> octet_group g4"
      by blast
  next
    assume "\<exists>g1 g2 g3 g4. s = g1 @ ''.'' @ g2 @ ''.'' @ g3 @ ''.'' @ g4 \<and>
        octet_group g1 \<and> octet_group g2 \<and> octet_group g3 \<and> octet_group g4"
    then obtain g1 g2 g3 g4 where
      s: "s = g1 @ ''.'' @ g2 @ ''.'' @ g3 @ ''.'' @ g4" and
      g: "octet_group g1" "octet_group g2" "octet_group g3" "octet_group g4"
      by blast
    from g have "g1 @ ''.'' \<in> ?X" "g2 @ ''.'' \<in> ?X" "g3 @ ''.'' \<in> ?X" "g4 \<in> ?G"
      unfolding lang_group_dot lang_group by blast+
    moreover from s have "s = (g1 @ ''.'') @ (g2 @ ''.'') @ (g3 @ ''.'') @ g4" by simp
    ultimately show "s \<in> lang ip_pattern" unfolding eq conc_four by blast
  qed
qed

subsection \<open>split\<close>

lemma str_split_no_sep: "sep \<notin> set g \<Longrightarrow> str_split sep g = [g]"
  by (induction g) auto

lemma str_split_app: "sep \<notin> set g \<Longrightarrow> str_split sep (g @ sep # rest) = g # str_split sep rest"
  by (induction g) auto

lemma dot_not_digit: "\<not> is_digit (CHR ''.'')"
  by (simp add: is_digit_def)

lemma octet_group_no_dot: "octet_group g \<Longrightarrow> CHR ''.'' \<notin> set g"
  using dot_not_digit by (auto simp: octet_group_def)

lemma str_split_groups:
  assumes "octet_group g1" "octet_group g2" "octet_group g3" "octet_group g4"
  shows "str_split (CHR ''.'') (g1 @ ''.'' @ g2 @ ''.'' @ g3 @ ''.'' @ g4) = [g1, g2, g3, g4]"
  using assms by (simp add: str_split_app str_split_no_sep octet_group_no_dot)

lemma py_int_group: "octet_group g \<Longrightarrow> \<exists>n. py_int g = Some n"
  by (auto simp: octet_group_def py_int_def list_all_iff)

lemma all_octets_Some:
  "\<forall>g\<in>set gs. \<exists>n. py_int g = Some n \<Longrightarrow>
   all_octets gs = Some (\<forall>g\<in>set gs. \<exists>n. py_int g = Some n \<and> 0 \<le> n \<and> n \<le> 255)"
  by (induction gs) auto

lemma is_valid_ip_char:
  "is_valid_ip s = Some (\<exists>g1 g2 g3 g4. str_strip s = g1 @ ''.'' @ g2 @ ''.'' @ g3 @ ''.'' @ g4 \<and>
        octet_group g1 \<and> octet_group g2 \<and> octet_group g3 \<and> octet_group g4 \<and>
        in_range g1 \<and> in_range g2 \<and> in_range g3 \<and> in_range g4)"
  (is "_ = Some ?R")
proof (cases "str_strip s \<in> lang ip_pattern")
  case False
  have "?R \<Longrightarrow> str_strip s \<in> lang ip_pattern"
    unfolding lang_ip_pattern by blast
  with False have "?R = False" by blast
  moreover from False have "is_valid_ip s = Some False"
    by (simp add: is_valid_ip_def re_match_stripped)
  ultimately show ?thesis by (simp only:)
next
  case True
  then obtain g1 g2 g3 g4 where
    dec: "str_strip s = g1 @ ''.'' @ g2 @ ''.'' @ g3 @ ''.'' @ g4"
    and grp: "octet_group g1" "octet_group g2" "octet_group g3" "octet_group g4"
    unfolding lang_ip_pattern by blast
  have sp: "str_split (CHR ''.'') (str_strip s) = [g1, g2, g3, g4]"
    unfolding dec using grp by (rule str_split_groups)
  from dec have ne: "str_strip s \<noteq> []" by simp
  then have ne': "s \<noteq> []" by auto
  have "\<forall>g\<in>set [g1, g2, g3, g4]. \<exists>n. py_int g = Some n"
    using grp py_int_group by simp
  then have "all_octets [g1, g2, g3, g4] = Some (\<forall>g\<in>set [g1, g2, g3, g4]. in_range g)"
    unfolding in_range_def by (rule all_octets_Some)
  then have ao: "all_octets [g1, g2, g3, g4] =
      Some (in_range g1 \<and> in_range g2 \<and> in_range g3 \<and> in_range g4)"
    by simp
  have v: "is_valid_ip s = Some (in_range g1 \<and> in_range g2 \<and> in_range g3 \<and> in_range g4)"
    unfolding is_valid_ip_def re_match_stripped sp ao using True ne ne' by simp
  have "?R \<longleftrightarrow> in_range g1 \<and> in_range g2 \<and> in_range g3 \<and> in_range g4"
  proof
    assume ?R
    then obtain h1 h2 h3 h4 where
      dec': "str_strip s = h1 @ ''.'' @ h2 @ ''.'' @ h3 @ ''.'' @ h4"
      and h: "octet_group h1" "octet_group h2" "octet_group h3" "octet_group h4"
      and r: "in_range h1" "in_range h2" "in_range h3" "in_range h4"
      by blast
    from h have "str_split (CHR ''.'') (str_strip s) = [h1, h2, h3, h4]"
      unfolding dec' by (rule str_split_groups)
    with sp have "g1 = h1" "g2 = h2" "g3 = h3" "g4 = h4" by simp_all
    with r show "in_range g1 \<and> in_range g2 \<and> in_range g3 \<and> in_range g4" by simp
  next
    assume "in_range g1 \<and> in_range g2 \<and> in_range g3 \<and> in_range g4"
    with dec grp show ?R by blast
  qed
  with v show ?thesis by (simp only:)
qed



subsection \<open>lower\<close>

lemma char_eq_code: "c = d \<longleftrightarrow> (of_char c :: nat) = of_char d"
  by simp

lemma lower_char_code:
  "(of_char (lower_char c) :: nat) =
     (if (65 \<le> (of_char c :: nat) \<and> (of_char c :: nat) \<le> 90) \<or>
         (192 \<le> (of_char c :: nat) \<and> (of_char c :: nat) \<le> 222 \<and> (of_char c :: nat) \<noteq> 215)
      then of_char c + 32 else of_char c)"
  using nat_of_char_less_256 [of c]
  by (simp add: lower_char_def less_eq_char_def char_eq_code [of c] del: of_char_eq_iff)

lemma lower_char_idem [simp]: "lower_char (lower_char c) = lower_char c"
  unfolding char_eq_code [of "lower_char (lower_char c)"]
  by (simp add: lower_char_code del: of_char_eq_iff)

lemma isspace_code:
  "isspace c \<longleftrightarrow> (of_char c :: nat) \<in> {9, 10, 11, 12, 13, 28, 29, 30, 31, 32, 133, 160}"
  by (simp add: isspace_def char_eq_code [of c] del: of_char_eq_iff)

lemma isspace_lower_char [simp]: "isspace (lower_char c) = isspace c"
  by (simp add: isspace_code lower_char_code)

lemma str_lower_fixed: "\<forall>c\<in>set t. lower_char c = c \<Longrightarrow> str_lower t = t"
  by (simp add: str_lower_def map_idI)

lemma set_str_strip: "set (str_strip t) \<subseteq> set t"
proof
  fix c
  assume "c \<in> set (str_strip t)"
  then have "c \<in> set (dropWhile isspace (rev (dropWhile isspace t)))"
    by (simp add: str_strip_def)
  then have "c \<in> set (rev (dropWhile isspace t))" by (rule set_dropWhileD)
  then have "c \<in> set (dropWhile isspace t)" by simp
  then show "c \<in> set t" by (rule set_dropWhileD)
qed

lemma lower_fixed_normalized: "\<forall>c\<in>set (str_strip (str_lower s)). lower_char c = c"
proof
  fix c
  assume "c \<in> set (str_strip (str_lower s))"
  with set_str_strip have "c \<in> set (str_lower s)" by blast
  then show "lower_char c = c" by (auto simp: str_lower_def)
qed

lemma normalized_idem:
  "str_strip (str_lower (str_strip (str_lower s))) = str_strip (str_lower s)"
  by (simp add: str_lower_fixed lower_fixed_normalized)

subsection \<open>replace\<close>

lemma str_replace_absent: "old \<notin> set w \<Longrightarrow> str_replace old new w = w"
  by (induction w) (auto simp: str_replace_def)

lemma str_replace_removes: "old \<noteq> new \<Longrightarrow> old \<notin> set (str_replace old new w)"
  by (auto simp: str_replace_def)

lemma str_replace_keeps_absent:
  "c \<notin> set w \<Longrightarrow> c \<noteq> new \<Longrightarrow> c \<notin> set (str_replace old new w)"
  by (auto simp: str_replace_def)

lemma str_replace_eq_no_new:
  "str_replace old new k = w \<Longrightarrow> new \<notin> set w \<Longrightarrow> k = w"
proof (induction k arbitrary: w)
  case Nil
  then show ?case by (simp add: str_replace_def)
next
  case (Cons a k)
  then show ?case by (cases w) (auto simp: str_replace_def split: if_splits)
qed

lemma str_strip_replace:
  assumes "str_strip k = k" "\<not> isspace new"
  shows "str_strip (str_replace old new k) = str_replace old new k"
proof (cases "k = []")
  case True
  then show ?thesis by (simp add: str_replace_def)
next
  case False
  with assms(1) have e: "\<not> isspace (hd k)" "\<not> isspace (last k)"
    using str_strip_hd [of k] str_strip_last [of k] by simp_all
  let ?f = "\<lambda>c. if c = old then new else c"
  from False have "hd (map ?f k) = ?f (hd k)" "last (map ?f k) = ?f (last k)"
    by (simp_all add: hd_map last_map)
  with e assms(2) have "\<not> isspace (hd (str_replace old new k))"
      "\<not> isspace (last (str_replace old new k))"
    by (simp_all add: str_replace_def)
  moreover from False have "str_replace old new k \<noteq> []" by (simp add: str_replace_def)
  ultimately show ?thesis by (intro str_strip_id)
qed

lemma str_lower_replace:
  assumes "\<forall>c\<in>set k. lower_char c = c" "lower_char new = new"
  shows "\<forall>c\<in>set (str_replace old new k). lower_char c = c"
  using assms by (auto simp: str_replace_def)

lemma lower_char_hyphen: "lower_char (CHR ''-'') = CHR ''-''"
  by (simp add: lower_char_def)

subsection \<open>device type\<close>

lemma normalize_device_type_ex3_eq: "normalize_device_type_ex3 s = normalize_device_type s"
  by (simp add: normalize_device_type_ex3_def normalize_device_type_def Let_def)

lemma normalize_location_ex3_eq: "normalize_location_ex3 s = normalize_location s"
  by (simp add: normalize_location_ex3_def normalize_location_def)

lemma normalize_device_type_table:
  "normalize_device_type s =
     (let k = str_strip (str_lower s)
      in if k = ''sw'' \<or> k = ''switch'' then ''switch''
         else if k = ''rtr'' \<or> k = ''router'' then ''router''
         else if k = ''fw'' \<or> k = ''firewall'' then ''firewall''
         else k)"
  by (simp add: normalize_device_type_def type_mapping_def dict_get_def Let_def)

lemma normalize_device_type_values:
  "normalize_device_type ''switch'' = ''switch''"
  "normalize_device_type ''router'' = ''router''"
  "normalize_device_type ''firewall'' = ''firewall''"
  by code_simp+

lemma normalize_device_type_idem:
  "normalize_device_type (normalize_device_type s) = normalize_device_type s"
proof -
  let ?k = "str_strip (str_lower s)"
  consider "normalize_device_type s = ''switch''" | "normalize_device_type s = ''router''"
    | "normalize_device_type s = ''firewall''"
    | "normalize_device_type s = ?k" "?k \<noteq> ''sw''" "?k \<noteq> ''switch''" "?k \<noteq> ''rtr''"
      "?k \<noteq> ''router''" "?k \<noteq> ''fw''" "?k \<noteq> ''firewall''"
    unfolding normalize_device_type_table [of s] Let_def by presburger
  then show ?thesis
  proof cases
    case 4
    have "normalize_device_type ?k = ?k"
      unfolding normalize_device_type_table [of ?k] Let_def normalized_idem using 4 by simp
    with 4 show ?thesis by simp
  qed (simp_all add: normalize_device_type_values)
qed

text \<open>
  C7. \<open>normalize_device_type\<close>, the same function in exercise 2 and exercise 3, lower-cases
  and trims its argument and returns the image of the result under the fixed table, or the
  lower-cased trimmed argument when the table does not map it.
\<close>

theorem normalize_device_type_spec:
  "normalize_device_type s =
     (let k = str_strip (str_lower s)
      in if k = ''sw'' \<or> k = ''switch'' then ''switch''
         else if k = ''rtr'' \<or> k = ''router'' then ''router''
         else if k = ''fw'' \<or> k = ''firewall'' then ''firewall''
         else k)
   \<and> normalize_device_type_ex3 s = normalize_device_type s
   \<and> normalize_device_type ''sw'' = ''switch''
   \<and> normalize_device_type ''RTR'' = ''router''
   \<and> normalize_device_type ''unknown'' = ''unknown''"
proof (intro conjI)
  show "normalize_device_type ''sw'' = ''switch''" by code_simp
  show "normalize_device_type ''RTR'' = ''router''" by code_simp
  show "normalize_device_type ''unknown'' = ''unknown''" by code_simp
qed (rule normalize_device_type_table normalize_device_type_ex3_eq)+

theorem normalize_device_type_spec_witness:
  "normalize_device_type '' Fw '' = ''firewall'' \<and>
   normalize_device_type_ex3 '' Fw '' = ''firewall''"
proof -
  have "str_strip (str_lower '' Fw '') = ''fw''" by code_simp
  with normalize_device_type_spec [of "'' Fw ''"] show ?thesis by (simp add: Let_def)
qed

subsection \<open>location\<close>

lemma normalize_location_values:
  "normalize_location ''building-a'' = ''building-a''"
  "normalize_location ''building-b'' = ''building-b''"
  "normalize_location ''building-c'' = ''building-c''"
  "normalize_location ''data-center'' = ''data-center''"
  by code_simp+

lemma location_mapping_values:
  "map_of location_mapping k = Some v \<Longrightarrow>
     v = ''building-a'' \<or> v = ''building-b'' \<or> v = ''building-c'' \<or> v = ''data-center''"
  by (auto simp: location_mapping_def split: if_splits)

lemma location_mapping_keys:
  "map_of location_mapping r = Some v \<Longrightarrow>
     CHR '' '' \<in> set r \<or> r = ''dc'' \<or> r = ''datacenter''"
  by (auto simp: location_mapping_def split: if_splits)

lemma location_mapping_plain_keys:
  "k = ''dc'' \<or> k = ''datacenter'' \<Longrightarrow> map_of location_mapping k \<noteq> None"
  by (auto simp: location_mapping_def)

lemma plain_keys_no_hyphen: "r = ''dc'' \<or> r = ''datacenter'' \<Longrightarrow> CHR ''-'' \<notin> set r"
  by auto

lemma normalize_location_idem:
  "normalize_location (normalize_location s) = normalize_location s"
proof -
  let ?k = "str_strip (str_lower s)"
  let ?r = "str_replace (CHR '' '') (CHR ''-'') ?k"
  show ?thesis
  proof (cases "map_of location_mapping ?k")
    case (Some v)
    then have "normalize_location s = v"
      by (simp add: normalize_location_def dict_get_def Let_def)
    with location_mapping_values [OF Some] show ?thesis
      by (auto simp: normalize_location_values)
  next
    case None
    then have res: "normalize_location s = ?r"
      by (simp add: normalize_location_def dict_get_def Let_def)
    have low: "str_lower ?r = ?r"
      by (intro str_lower_fixed str_lower_replace lower_fixed_normalized lower_char_hyphen)
    have "str_strip ?k = ?k" by simp
    then have strip: "str_strip ?r = ?r"
      by (rule str_strip_replace) (rule hyphen_not_space)
    have nosp: "CHR '' '' \<notin> set ?r" by (rule str_replace_removes) simp
    have unmapped: "map_of location_mapping ?r = None"
    proof (rule ccontr)
      assume "map_of location_mapping ?r \<noteq> None"
      then obtain v where "map_of location_mapping ?r = Some v" by blast
      from location_mapping_keys [OF this] nosp
      have plain: "?r = ''dc'' \<or> ?r = ''datacenter''" by blast
      then have "CHR ''-'' \<notin> set ?r" by (rule plain_keys_no_hyphen)
      with refl have "?k = ?r" by (rule str_replace_eq_no_new)
      then have eq: "?r = ?k" by (rule sym)
      from plain have "?k = ''dc'' \<or> ?k = ''datacenter''" unfolding eq .
      then have "map_of location_mapping ?k \<noteq> None" by (rule location_mapping_plain_keys)
      with None show False by blast
    qed
    have "normalize_location ?r = str_replace (CHR '' '') (CHR ''-'') ?r"
      by (simp add: normalize_location_def dict_get_def Let_def low strip unmapped)
    also have "\<dots> = ?r" using nosp by (rule str_replace_absent)
    finally show ?thesis by (simp add: res)
  qed
qed

subsection \<open>hostname\<close>

lemma normalize_hostname_idem:
  "normalize_hostname (normalize_hostname s) = normalize_hostname s"
proof -
  let ?k = "str_strip (str_lower s)"
  let ?u = "str_replace (CHR ''_'') (CHR ''-'') ?k"
  let ?r = "str_replace (CHR '' '') (CHR ''-'') ?u"
  have res: "normalize_hostname s = ?r" by (simp add: normalize_hostname_def)
  have low: "str_lower ?r = ?r"
    by (intro str_lower_fixed str_lower_replace lower_fixed_normalized lower_char_hyphen)
  have "str_strip ?k = ?k" by simp
  then have "str_strip ?u = ?u"
    by (rule str_strip_replace) (rule hyphen_not_space)
  then have strip: "str_strip ?r = ?r"
    by (rule str_strip_replace) (rule hyphen_not_space)
  have "CHR ''_'' \<notin> set ?u" by (rule str_replace_removes) simp
  then have nous: "CHR ''_'' \<notin> set ?r" by (rule str_replace_keeps_absent) simp
  have nosp: "CHR '' '' \<notin> set ?r" by (rule str_replace_removes) simp
  have "normalize_hostname ?r =
      str_replace (CHR '' '') (CHR ''-'') (str_replace (CHR ''_'') (CHR ''-'') ?r)"
    by (simp only: normalize_hostname_def low strip)
  also have "\<dots> = ?r"
    by (simp only: str_replace_absent [OF nous] str_replace_absent [OF nosp])
  finally show ?thesis by (simp only: res)
qed

text \<open>
  C8. Each normalizer is idempotent: applied to its own output it returns that output.
\<close>

theorem normalizers_idempotent:
  "normalize_device_type (normalize_device_type s) = normalize_device_type s
   \<and> normalize_location (normalize_location s) = normalize_location s
   \<and> normalize_hostname (normalize_hostname s) = normalize_hostname s
   \<and> normalize_device_type_ex3 (normalize_device_type_ex3 s) = normalize_device_type_ex3 s
   \<and> normalize_location_ex3 (normalize_location_ex3 s) = normalize_location_ex3 s
   \<and> normalize_device_type ''switch'' = ''switch''"
  by (simp only: normalize_device_type_idem normalize_location_idem normalize_hostname_idem
      normalize_device_type_ex3_eq normalize_location_ex3_eq normalize_device_type_values
      simp_thms)

theorem normalizers_idempotent_witness:
  "normalize_device_type (normalize_device_type '' SW '') = ''switch''
   \<and> normalize_location (normalize_location ''Server  Room 2'') = ''server--room-2''
   \<and> normalize_hostname (normalize_hostname '' Core_SW 01 '') = ''core-sw-01''"
proof -
  have "normalize_device_type '' SW '' = ''switch''" by code_simp
  moreover have "normalize_location ''Server  Room 2'' = ''server--room-2''" by code_simp
  moreover have "normalize_hostname '' Core_SW 01 '' = ''core-sw-01''" by code_simp
  ultimately show ?thesis
    using normalizers_idempotent [of "'' SW ''"]
      normalizers_idempotent [of "''Server  Room 2''"]
      normalizers_idempotent [of "'' Core_SW 01 ''"]
    by (simp only: simp_thms)
qed

subsection \<open>Row validation\<close>

lemma is_valid_ip_total: "\<exists>b. is_valid_ip s = Some b"
  using is_valid_ip_char [of s] by blast

lemma valid_hostname_chars:
  "is_valid_hostname s \<Longrightarrow> \<forall>c\<in>set (str_strip s). is_alnum_hyphen c"
proof -
  assume "is_valid_hostname s"
  then have "str_strip s \<in> lang hostname_pattern" by (simp add: is_valid_hostname_iff)
  then show ?thesis unfolding lang_hostname_pattern by (auto simp: is_alnum_hyphen_def)
qed

lemma underscore_not_alnum_hyphen: "\<not> is_alnum_hyphen (CHR ''_'')"
  by (simp add: is_alnum_hyphen_def is_alnum_def)

lemma lower_char_underscore: "lower_char c = CHR ''_'' \<Longrightarrow> c = CHR ''_''"
proof -
  assume "lower_char c = CHR ''_''"
  then have "(of_char (lower_char c) :: nat) = 95" by simp
  then have "(of_char c :: nat) = 95" by (simp add: lower_char_code split: if_splits)
  then have "(of_char c :: nat) = of_char (CHR ''_'')" by simp
  then show ?thesis by (simp only: of_char_eq_iff)
qed

lemma lower_no_underscore: "CHR ''_'' \<notin> set h \<Longrightarrow> CHR ''_'' \<notin> set (str_lower h)"
proof
  assume a: "CHR ''_'' \<notin> set h" and "CHR ''_'' \<in> set (str_lower h)"
  then obtain c where "c \<in> set h" "lower_char c = CHR ''_''"
    by (auto simp: str_lower_def)
  with a lower_char_underscore show False by blast
qed

lemma valid_hostname_no_underscore:
  assumes "is_valid_hostname h" "str_strip h = h"
  shows "CHR ''_'' \<notin> set (str_lower h)"
proof -
  from valid_hostname_chars [OF assms(1)] assms(2)
  have "\<forall>c\<in>set h. is_alnum_hyphen c" by simp
  with underscore_not_alnum_hyphen have "CHR ''_'' \<notin> set h" by blast
  then show ?thesis by (rule lower_no_underscore)
qed



text \<open>
  C5. A row whose hostname (\<open>hostname\<close>, else \<open>name\<close>) passes the hostname validator,
  whose device type (\<open>type\<close>, else \<open>device_type\<close>) and location (\<open>loc\<close>, else
  \<open>location\<close>) are non-empty after trimming and whose IP (\<open>ip\<close>, else \<open>ip_address\<close>)
  is empty after trimming gets exactly one error, \<open>Missing IP address\<close>, and no cleaned
  data.
\<close>

theorem validate_row_missing_ip:
  assumes "str_strip (dict_get row ''hostname'' (dict_get row ''name'' '''')) \<noteq> []"
    and "is_valid_hostname (str_strip (dict_get row ''hostname'' (dict_get row ''name'' '''')))"
    and "str_strip (dict_get row ''type'' (dict_get row ''device_type'' '''')) \<noteq> []"
    and "str_strip (dict_get row ''loc'' (dict_get row ''location'' '''')) \<noteq> []"
    and "str_strip (dict_get row ''ip'' (dict_get row ''ip_address'' '''')) = []"
  shows "validate_row row_num row =
     Some \<lparr>row_number = row_num, is_valid = False, errors = [''Missing IP address''],
           cleaned_data = None\<rparr>"
  using assms by (simp add: validate_row_def Let_def)

theorem validate_row_missing_ip_witness:
  "validate_row 7 (map_of [(''name'', ''core-rtr''), (''ip_address'', ''  ''),
                           (''device_type'', ''rtr''), (''location'', ''DC'')]) =
     Some \<lparr>row_number = 7, is_valid = False, errors = [''Missing IP address''],
           cleaned_data = None\<rparr>"
proof -
  let ?row = "map_of [(''name'', ''core-rtr''), (''ip_address'', ''  ''),
                      (''device_type'', ''rtr''), (''location'', ''DC'')]"
  have h: "str_strip (dict_get ?row ''hostname'' (dict_get ?row ''name'' '''')) = ''core-rtr''"
    by code_simp
  have v: "is_valid_hostname ''core-rtr''" by code_simp
  have t: "str_strip (dict_get ?row ''type'' (dict_get ?row ''device_type'' '''')) = ''rtr''"
    by code_simp
  have l: "str_strip (dict_get ?row ''loc'' (dict_get ?row ''location'' '''')) = ''DC''"
    by code_simp
  have i: "str_strip (dict_get ?row ''ip'' (dict_get ?row ''ip_address'' '''')) = []"
    by code_simp
  show ?thesis
    by (rule validate_row_missing_ip) (simp_all only: h v t l i, simp_all)
qed

text \<open>
  C9. On every row that \<open>validate_row\<close> finds valid, the cleaned hostname is the trimmed,
  lower-cased raw hostname and has no underscore: replacing underscores changes nothing
  there.
\<close>

theorem validate_row_cleaned_hostname:
  assumes "validate_row row_num row = Some r" and "is_valid r"
  shows "\<exists>cleaned. cleaned_data r = Some cleaned \<and>
     map_of cleaned ''hostname'' =
       Some (str_lower (str_strip (dict_get row ''hostname'' (dict_get row ''name'' '''')))) \<and>
     CHR ''_'' \<notin> set (str_lower (str_strip (dict_get row ''hostname'' (dict_get row ''name'' ''''))))"
proof -
  let ?h = "str_strip (dict_get row ''hostname'' (dict_get row ''name'' ''''))"
  let ?ip = "str_strip (dict_get row ''ip'' (dict_get row ''ip_address'' ''''))"
  obtain b where b: "is_valid_ip ?ip = Some b" using is_valid_ip_total by blast
  from assms b have valid: "is_valid_hostname ?h"
    by (auto simp: validate_row_def Let_def split: if_splits)
  have "str_strip ?h = ?h" by simp
  with valid have nous: "CHR ''_'' \<notin> set (str_lower ?h)"
    by (rule valid_hostname_no_underscore)
  then have "str_replace (CHR ''_'') (CHR ''-'') (str_lower ?h) = str_lower ?h"
    by (rule str_replace_absent)
  with assms b nous show ?thesis
    by (auto simp: validate_row_def Let_def split: if_splits)
qed

theorem validate_row_cleaned_hostname_witness:
  "\<exists>r cleaned.
     validate_row 2 (map_of [(''hostname'', '' SW-01 ''), (''ip'', ''10.0.1.1''),
                             (''type'', ''sw''), (''loc'', ''Bldg A'')]) = Some r \<and>
     is_valid r \<and> cleaned_data r = Some cleaned \<and> map_of cleaned ''hostname'' = Some ''sw-01''"
proof -
  let ?row = "map_of [(''hostname'', '' SW-01 ''), (''ip'', ''10.0.1.1''),
                      (''type'', ''sw''), (''loc'', ''Bldg A'')]"
  let ?r = "\<lparr>row_number = 2, is_valid = True, errors = [],
     cleaned_data = Some [(''hostname'', ''sw-01''), (''ip_address'', ''10.0.1.1''),
       (''device_type'', ''switch''), (''location'', ''building-a'')]\<rparr>"
  have v: "validate_row 2 ?row = Some ?r" by code_simp
  have l: "str_lower (str_strip (dict_get ?row ''hostname'' (dict_get ?row ''name'' ''''))) = ''sw-01''"
    by code_simp
  from validate_row_cleaned_hostname [OF v] l v show ?thesis by auto
qed

subsection \<open>Alternate column names\<close>












subsection \<open>Row filter and transformation\<close>


lemma transform_row_valid:
  "is_valid_row row \<Longrightarrow>
   transform_row row =
     Some \<lparr>hostname = normalize_hostname
              (str_strip (dict_get row ''hostname'' (dict_get row ''name'' ''''))),
           ip_address = str_strip (dict_get row ''ip'' (dict_get row ''ip_address'' '''')),
           device_type = normalize_device_type_ex3
              (str_strip (dict_get row ''type'' (dict_get row ''device_type'' ''''))),
           location = normalize_location_ex3
              (str_strip (dict_get row ''loc'' (dict_get row ''location'' ''''))),
           status = ''active''\<rparr>"
  by (simp add: transform_row_def Let_def)




subsection \<open>Deduplication\<close>

lemma remove_duplicates_loop:
  "remove_duplicates ds seen acc n =
     (acc @ unseen_firsts seen ds, n + (length ds - length (unseen_firsts seen ds)))"
proof (induction ds arbitrary: seen acc n)
  case Nil
  show ?case by simp
next
  case (Cons d ds)
  have le: "length (unseen_firsts s ds) \<le> length ds" for s
    by (induction ds arbitrary: s) (auto intro: le_SucI)
  show ?case
    using le [of seen] le [of "insert (hostname d) seen"]
    by (simp add: Cons Suc_diff_le)
qed

lemma length_unseen_firsts: "length (unseen_firsts seen ds) \<le> length ds"
  by (induction ds arbitrary: seen) (auto intro: le_SucI)

lemma unseen_firsts_hostnames:
  "set (map hostname (unseen_firsts seen ds)) = set (map hostname ds) - seen"
  by (induction ds arbitrary: seen) auto

lemma unseen_firsts_unseen: "d \<in> set (unseen_firsts seen ds) \<Longrightarrow> hostname d \<notin> seen"
  by (induction ds arbitrary: seen) (auto split: if_splits)

lemma unseen_firsts_distinct: "distinct (map hostname (unseen_firsts seen ds))"
proof (induction ds arbitrary: seen)
  case Nil
  show ?case by simp
next
  case (Cons d ds)
  have "hostname d \<notin> hostname ` set (unseen_firsts (insert (hostname d) seen) ds)"
  proof
    assume "hostname d \<in> hostname ` set (unseen_firsts (insert (hostname d) seen) ds)"
    then obtain e where e: "e \<in> set (unseen_firsts (insert (hostname d) seen) ds)"
      and h: "hostname e = hostname d" by auto
    from e have "hostname e \<notin> insert (hostname d) seen" by (rule unseen_firsts_unseen)
    with h show False by simp
  qed
  with Cons show ?case by simp
qed

lemma unseen_firsts_index:
  "unseen_firsts seen ds =
     map (\<lambda>i. ds ! i)
       (filter (\<lambda>i. hostname (ds ! i) \<notin> seen \<and> (\<forall>j<i. hostname (ds ! j) \<noteq> hostname (ds ! i)))
          [0..<length ds])"
proof (induction ds arbitrary: seen)
  case Nil
  show ?case by simp
next
  case (Cons d ds)
  let ?P = "\<lambda>s xs i. hostname (xs ! i) \<notin> s \<and> (\<forall>j<i. hostname (xs ! j) \<noteq> hostname (xs ! i))"
  have shift: "?P seen (d # ds) (Suc i) \<longleftrightarrow> ?P (insert (hostname d) seen) ds i" for i
    by (auto simp: All_less_Suc2)
  have upt: "[0..<length (d # ds)] = 0 # map Suc [0..<length ds]"
    by (metis length_Cons map_Suc_upt upt_conv_Cons zero_less_Suc)
  have tail: "map (\<lambda>i. (d # ds) ! i) (filter (?P seen (d # ds)) (map Suc [0..<length ds])) =
      unseen_firsts (insert (hostname d) seen) ds"
  proof -
    have "filter (?P seen (d # ds)) (map Suc [0..<length ds]) =
        map Suc (filter (?P (insert (hostname d) seen) ds) [0..<length ds])"
      unfolding filter_map o_def shift ..
    then show ?thesis
      by (simp add: Cons.IH [of "insert (hostname d) seen"] o_def)
  qed
  show ?case
  proof (cases "hostname d \<in> seen")
    case True
    then have "insert (hostname d) seen = seen" by auto
    with tail True show ?thesis unfolding upt by simp
  next
    case False
    with tail show ?thesis unfolding upt by simp
  qed
qed

lemma remove_duplicates_first_occurrences:
  "remove_duplicates devices {} [] 0 = (first_occurrences devices, repeated_count devices)"
proof -
  let ?Q = "\<lambda>i. \<forall>j<i. hostname (devices ! j) \<noteq> hostname (devices ! i)"
  have u: "unseen_firsts {} devices = first_occurrences devices"
    by (simp add: unseen_firsts_index first_occurrences_def)
  have "length (filter ?Q [0..<length devices]) +
      length (filter (\<lambda>i. \<not> ?Q i) [0..<length devices]) = length devices"
    using sum_length_filter_compl [of ?Q "[0..<length devices]"] by simp
  moreover have "length (first_occurrences devices) = length (filter ?Q [0..<length devices])"
    by (simp add: first_occurrences_def)
  moreover have "repeated_count devices = length (filter (\<lambda>i. \<not> ?Q i) [0..<length devices])"
    by (simp add: repeated_count_def)
  ultimately have "length devices - length (first_occurrences devices) = repeated_count devices"
    by simp
  then show ?thesis by (simp add: remove_duplicates_loop u)
qed

lemma first_occurrences_distinct: "distinct (map hostname (first_occurrences devices))"
proof -
  have "unseen_firsts {} devices = first_occurrences devices"
    by (simp add: unseen_firsts_index first_occurrences_def)
  with unseen_firsts_distinct [of "{}" devices] show ?thesis by simp
qed

lemma first_occurrences_hostnames:
  "set (map hostname (first_occurrences devices)) = set (map hostname devices)"
proof -
  have "unseen_firsts {} devices = first_occurrences devices"
    by (simp add: unseen_firsts_index first_occurrences_def)
  with unseen_firsts_hostnames [of "{}" devices] show ?thesis by simp
qed

subsection \<open>Sorting and writing\<close>

lemma dedup_and_sort_eq:
  "dedup_and_sort devices =
     (sort_key hostname (first_occurrences devices), repeated_count devices)"
  by (simp add: dedup_and_sort_def remove_duplicates_first_occurrences sort_by_hostname_def)

lemma sorted_hostnames_strict:
  "sorted_wrt (<) (map hostname (sort_key hostname (first_occurrences devices)))"
proof -
  let ?u = "first_occurrences devices"
  have "distinct (map hostname ?u)" by (rule first_occurrences_distinct)
  then have "distinct ?u" "inj_on hostname (set ?u)" by (simp_all add: distinct_map)
  then have "distinct (map hostname (sort_key hostname ?u))" by (simp add: distinct_map)
  moreover have "sorted (map hostname (sort_key hostname ?u))" by (rule sorted_sort_key)
  ultimately show ?thesis by (simp add: strict_sorted_iff)
qed

lemma writerow_to_dict: "writerow (to_dict d) = csv_row d"
  by (simp add: writerow_def to_dict_def fieldnames_def dict_get_def csv_row_def)

lemma read_and_transform_loop:
  "read_and_transform rows acc n =
     (acc @ List.map_filter transform_row rows,
      n + length (filter (\<lambda>row. transform_row row = None) rows))"
  by (induction rows arbitrary: acc n) (auto simp: map_filter_simps split: option.splits)

lemma pipeline_eq:
  "task_3_transform_pipeline rows =
     \<lparr>written = map csv_row
        (sort_key hostname (first_occurrences (List.map_filter transform_row rows))),
      valid_devices = length (List.map_filter transform_row rows),
      skipped_invalid = length (filter (\<lambda>row. transform_row row = None) rows),
      duplicates_removed = repeated_count (List.map_filter transform_row rows),
      final_count = length (first_occurrences (List.map_filter transform_row rows))\<rparr>"
  by (simp add: task_3_transform_pipeline_def read_and_transform_loop dedup_and_sort_eq
      writerow_to_dict)

lemma hd_csv_row: "map hd (map csv_row ds) = map hostname ds"
  by (simp add: csv_row_def)

lemma same_hostname_pair:
  assumes "transform_row r1 = Some d1" "transform_row r2 = Some d2" "hostname d1 = hostname d2"
  shows "written (task_3_transform_pipeline [r1, r2]) = [csv_row d1]"
    and "duplicates_removed (task_3_transform_pipeline [r1, r2]) = 1"
proof -
  have "dedup_and_sort [d1, d2] = ([d1], 1)"
    using assms(3) by (simp add: dedup_and_sort_def sort_by_hostname_def)
  then have "task_3_transform_pipeline [r1, r2] =
      \<lparr>written = [csv_row d1], valid_devices = 2, skipped_invalid = 0,
       duplicates_removed = 1, final_count = 1\<rparr>"
    using assms(1,2) by (simp add: task_3_transform_pipeline_def writerow_to_dict)
  then show "written (task_3_transform_pipeline [r1, r2]) = [csv_row d1]"
    and "duplicates_removed (task_3_transform_pipeline [r1, r2]) = 1"
    by simp_all
qed

lemma sw_01_hostnames:
  "normalize_hostname (str_strip ''SW-01'') = ''sw-01''"
  "normalize_hostname (str_strip ''sw_01'') = ''sw-01''"
  by code_simp+

text \<open>
  C1. The deduplication loop keeps, in their original order, exactly the Devices that are
  the first with their hostname, and counts every other position as one duplicate. The
  Devices kept are then sorted by hostname, so the hostnames of the output are strictly
  ascending, hence pairwise distinct; the written rows are those Devices in that order.
  Two valid rows with the hostnames \<open>SW-01\<close> and \<open>sw_01\<close> give one written row, with the
  hostname \<open>sw-01\<close>, and a duplicate count of 1.
\<close>

theorem dedup_sort_pipeline:
  "remove_duplicates devices {} [] 0 = (first_occurrences devices, repeated_count devices)
   \<and> repeated_count devices = length devices - length (first_occurrences devices)
   \<and> distinct (map hostname (first_occurrences devices))
   \<and> set (map hostname (first_occurrences devices)) = set (map hostname devices)
   \<and> dedup_and_sort devices =
       (sort_key hostname (first_occurrences devices), repeated_count devices)
   \<and> mset (fst (dedup_and_sort devices)) = mset (first_occurrences devices)
   \<and> sorted_wrt (<) (map hostname (fst (dedup_and_sort devices)))
   \<and> written (task_3_transform_pipeline rows) =
       map csv_row (fst (dedup_and_sort (List.map_filter transform_row rows)))
   \<and> duplicates_removed (task_3_transform_pipeline rows) =
       snd (dedup_and_sort (List.map_filter transform_row rows))
   \<and> sorted_wrt (<) (map hd (written (task_3_transform_pipeline rows)))
   \<and> (is_valid_row r1 \<and> is_valid_row r2 \<and>
        dict_get r1 ''hostname'' (dict_get r1 ''name'' '''') = ''SW-01'' \<and>
        dict_get r2 ''hostname'' (dict_get r2 ''name'' '''') = ''sw_01'' \<longrightarrow>
        (\<exists>d. transform_row r1 = Some d \<and> hostname d = ''sw-01'' \<and>
           written (task_3_transform_pipeline [r1, r2]) = [csv_row d]) \<and>
        duplicates_removed (task_3_transform_pipeline [r1, r2]) = 1)"
proof (intro conjI impI)
  show "remove_duplicates devices {} [] 0 = (first_occurrences devices, repeated_count devices)"
    by (rule remove_duplicates_first_occurrences)
  show "repeated_count devices = length devices - length (first_occurrences devices)"
    using remove_duplicates_first_occurrences [of devices]
    by (auto simp: remove_duplicates_loop)
  show "distinct (map hostname (first_occurrences devices))"
    by (rule first_occurrences_distinct)
  show "set (map hostname (first_occurrences devices)) = set (map hostname devices)"
    by (rule first_occurrences_hostnames)
  show "dedup_and_sort devices =
       (sort_key hostname (first_occurrences devices), repeated_count devices)"
    by (rule dedup_and_sort_eq)
  show "mset (fst (dedup_and_sort devices)) = mset (first_occurrences devices)"
    by (simp add: dedup_and_sort_eq)
  show "sorted_wrt (<) (map hostname (fst (dedup_and_sort devices)))"
    by (simp only: dedup_and_sort_eq fst_conv sorted_hostnames_strict)
  show "written (task_3_transform_pipeline rows) =
       map csv_row (fst (dedup_and_sort (List.map_filter transform_row rows)))"
    by (simp add: pipeline_eq dedup_and_sort_eq)
  show "duplicates_removed (task_3_transform_pipeline rows) =
       snd (dedup_and_sort (List.map_filter transform_row rows))"
    by (simp add: pipeline_eq dedup_and_sort_eq)
  show "sorted_wrt (<) (map hd (written (task_3_transform_pipeline rows)))"
    by (simp only: pipeline_eq PipelineResult.simps hd_csv_row sorted_hostnames_strict)
next
  assume a: "is_valid_row r1 \<and> is_valid_row r2 \<and>
        dict_get r1 ''hostname'' (dict_get r1 ''name'' '''') = ''SW-01'' \<and>
        dict_get r2 ''hostname'' (dict_get r2 ''name'' '''') = ''sw_01''"
  then obtain d1 d2 where t: "transform_row r1 = Some d1" "transform_row r2 = Some d2"
    and h: "hostname d1 = ''sw-01''" "hostname d2 = ''sw-01''"
    by (simp add: transform_row_valid sw_01_hostnames)
  from h have same: "hostname d1 = hostname d2" by simp
  from t h same_hostname_pair(1) [OF t same]
  show "\<exists>d. transform_row r1 = Some d \<and> hostname d = ''sw-01'' \<and>
           written (task_3_transform_pipeline [r1, r2]) = [csv_row d]"
    by blast
  show "duplicates_removed (task_3_transform_pipeline [r1, r2]) = 1"
    using t same by (rule same_hostname_pair(2))
qed

theorem dedup_sort_pipeline_witness:
  "written (task_3_transform_pipeline
      [map_of [(''hostname'', ''SW-01''), (''ip'', ''10.0.1.1''), (''type'', ''sw''),
               (''loc'', ''Bldg A'')],
       map_of [(''hostname'', ''sw_01''), (''ip'', ''10.0.1.2'')]]) =
     [[''sw-01'', ''10.0.1.1'', ''switch'', ''building-a'', ''active'']] \<and>
   duplicates_removed (task_3_transform_pipeline
      [map_of [(''hostname'', ''SW-01''), (''ip'', ''10.0.1.1''), (''type'', ''sw''),
               (''loc'', ''Bldg A'')],
       map_of [(''hostname'', ''sw_01''), (''ip'', ''10.0.1.2'')]]) = 1"
proof -
  let ?r1 = "map_of [(''hostname'', ''SW-01''), (''ip'', ''10.0.1.1''), (''type'', ''sw''),
               (''loc'', ''Bldg A'')]"
  let ?r2 = "map_of [(''hostname'', ''sw_01''), (''ip'', ''10.0.1.2'')]"
  let ?d = "\<lparr>hostname = ''sw-01'', ip_address = ''10.0.1.1'', device_type = ''switch'',
             location = ''building-a'', status = ''active''\<rparr>"
  have v: "is_valid_row ?r1" "is_valid_row ?r2" by code_simp+
  have n: "dict_get ?r1 ''hostname'' (dict_get ?r1 ''name'' '''') = ''SW-01''"
    "dict_get ?r2 ''hostname'' (dict_get ?r2 ''name'' '''') = ''sw_01''"
    by (simp_all add: dict_get_def)
  have t: "transform_row ?r1 = Some ?d" by code_simp
  from dedup_sort_pipeline [of "[]" "[]" ?r1 ?r2] v n
  have "(\<exists>d. transform_row ?r1 = Some d \<and> hostname d = ''sw-01'' \<and>
           written (task_3_transform_pipeline [?r1, ?r2]) = [csv_row d]) \<and>
        duplicates_removed (task_3_transform_pipeline [?r1, ?r2]) = 1"
    by blast
  then have "written (task_3_transform_pipeline [?r1, ?r2]) = [csv_row ?d]"
    and "duplicates_removed (task_3_transform_pipeline [?r1, ?r2]) = 1"
    unfolding t by auto
  then show ?thesis by (simp add: csv_row_def)
qed

end
